theory Spec2Isabelle
  imports Main "HOL-Library.AList" "HOL-Library.Char_ord" "HOL-Library.List_Lexorder"
begin

section \<open>chord\_finder: chords contained in a mode\<close>

text \<open>
  A shallow embedding of \<^verbatim>\<open>chord_finder.py\<close>. Python integers are \<^typ>\<open>int\<close>,
  strings are \<^typ>\<open>string\<close>, lists and tuples are HOL lists. A Python \<^verbatim>\<open>dict\<close> is an
  association list in insertion order whose keys are pairwise distinct: \<open>d[k] = v\<close> is
  \<^const>\<open>AList.update\<close> (it overwrites in place or appends), \<open>d[k]\<close> is \<^const>\<open>map_of\<close> with
  \<open>KeyError\<close> for a missing key. Every exception of the source is a value \<open>Inl e\<close>.
\<close>

subsection \<open>Errors\<close>

datatype key = StrKey string | IntKey int | TupleKey "int list"

datatype error =
    KeyError key
  | NotPossible int
  | IndexError
  | TypeError

subsection \<open>reset\_octave\<close>

text \<open>
  \<^verbatim>\<open>
  while num < 0:
      num += 12
      if num > 11:
          raise Exception('Not Possible: {}'.format(num))
  while num > 11:
      num -= 12
      if num < 0:
          raise Exception('Not Possible: {}'.format(num))
  return num
  \<close>
  Each \<^verbatim>\<open>while\<close> loop is a recursive function with its own termination proof.
\<close>

function reset_octave_up :: "int \<Rightarrow> error + int" where
  "reset_octave_up num =
     (if num < 0
      then (if num + 12 > 11 then Inl (NotPossible (num + 12))
            else reset_octave_up (num + 12))
      else Inr num)"
  by pat_completeness auto
termination
  by (relation "measure (\<lambda>num. nat (- num))") auto

function reset_octave_down :: "int \<Rightarrow> error + int" where
  "reset_octave_down num =
     (if num > 11
      then (if num - 12 < 0 then Inl (NotPossible (num - 12))
            else reset_octave_down (num - 12))
      else Inr num)"
  by pat_completeness auto
termination
  by (relation "measure (\<lambda>num. nat num)") auto

declare reset_octave_up.simps [simp del]
declare reset_octave_down.simps [simp del]

definition reset_octave :: "int \<Rightarrow> error + int" where
  "reset_octave num =
     (case reset_octave_up num of
        Inl e \<Rightarrow> Inl e
      | Inr n \<Rightarrow> reset_octave_down n)"

text \<open>One pass through the body of whichever loop is active at \<open>num\<close>, and the distance
  of \<open>num\<close> from the interval \<open>[0, 11]\<close>.\<close>

definition octave_step :: "int \<Rightarrow> int" where
  "octave_step num = (if num < 0 then num + 12 else if num > 11 then num - 12 else num)"

definition octave_dist :: "int \<Rightarrow> nat" where
  "octave_dist num = (if num < 0 then nat (- num) else if num > 11 then nat (num - 11) else 0)"

subsection \<open>generate\_pitch\_names\<close>

text \<open>The two chromatic spellings, \<^verbatim>\<open>'C C# D ...'.split(' ')\<close>.\<close>

definition sharp_names :: "string list" where
  "sharp_names = [''C'', ''C#'', ''D'', ''D#'', ''E'', ''F'', ''F#'', ''G'', ''G#'', ''A'', ''A#'', ''B'']"

definition flat_names :: "string list" where
  "flat_names = [''C'', ''Db'', ''D'', ''Eb'', ''E'', ''F'', ''Gb'', ''G'', ''Ab'', ''A'', ''Bb'', ''B'']"

text \<open>\<^verbatim>\<open>if 'b' in starting_pitch and sharped: sharped = False\<close>, then the choice of the list.\<close>

definition resolve_sharped :: "string \<Rightarrow> bool \<Rightarrow> bool" where
  "resolve_sharped starting_pitch sharped =
     (if CHR ''b'' \<in> set starting_pitch \<and> sharped then False else sharped)"

definition pitch_names_of :: "string \<Rightarrow> bool \<Rightarrow> string list" where
  "pitch_names_of starting_pitch sharped =
     (if resolve_sharped starting_pitch sharped then sharp_names else flat_names)"

text \<open>\<^verbatim>\<open>enumerate\<close>, with Python's integer indices.\<close>

definition enumerate_py :: "'a list \<Rightarrow> (int \<times> 'a) list" where
  "enumerate_py xs = zip (map int [0..<length xs]) xs"

text \<open>\<^verbatim>\<open>pitches = {k: i for i, k in enumerate(pitch_names)}\<close>\<close>

definition pitches_of :: "string list \<Rightarrow> (string \<times> int) list" where
  "pitches_of pitch_names =
     fold (\<lambda>(i, k) d. AList.update k i d) (enumerate_py pitch_names) []"

text \<open>\<open>d[k]\<close> on a dictionary with string keys.\<close>

definition lookup_str :: "(string \<times> 'v) list \<Rightarrow> string \<Rightarrow> error + 'v" where
  "lookup_str d k = (case map_of d k of None \<Rightarrow> Inl (KeyError (StrKey k)) | Some v \<Rightarrow> Inr v)"

text \<open>\<^verbatim>\<open>{reset_octave(i - diff): k for i, k in enumerate(pitch_names)}\<close>: the comprehension
  runs over the pairs in order and stops at the first exception.\<close>

fun rotate_names :: "int \<Rightarrow> (int \<times> string) list \<Rightarrow> (int \<times> string) list \<Rightarrow> error + (int \<times> string) list" where
  "rotate_names diff [] d = Inr d"
| "rotate_names diff ((i, k) # rest) d =
     (case reset_octave (i - diff) of
        Inl e \<Rightarrow> Inl e
      | Inr j \<Rightarrow> rotate_names diff rest (AList.update j k d))"

definition generate_pitch_names :: "string \<Rightarrow> bool \<Rightarrow> error + (int \<times> string) list" where
  "generate_pitch_names starting_pitch sharped =
     (let pitch_names = pitch_names_of starting_pitch sharped;
          pitches = pitches_of pitch_names
      in case lookup_str pitches starting_pitch of
           Inl e \<Rightarrow> Inl e
         | Inr p \<Rightarrow>
             (case lookup_str pitches ''C'' of
                Inl e \<Rightarrow> Inl e
              | Inr c \<Rightarrow> rotate_names (p - c) (enumerate_py pitch_names) []))"

text \<open>The invariant of a pitch name mapping rotated to start at \<open>sp\<close>: twelve entries, the
  keys are exactly \<open>0, \<dots>, 11\<close>, keys and names are pairwise distinct, and key 0 carries
  \<open>sp\<close>.\<close>

definition twelve_names :: "string \<Rightarrow> (int \<times> string) list \<Rightarrow> bool" where
  "twelve_names sp m \<longleftrightarrow>
     length m = 12 \<and> fst ` set m = {0..11} \<and> distinct (map fst m) \<and> distinct (map snd m)
     \<and> map_of m 0 = Some sp"

subsection \<open>name\_chord\<close>

text \<open>The format \<^verbatim>\<open>{0: <2}\<close>: left-aligned, padded with spaces to width 2.\<close>

definition ljust2 :: "string \<Rightarrow> string" where
  "ljust2 s = s @ replicate (2 - length s) CHR '' ''"

text \<open>\<^verbatim>\<open>"{0: <2}{1:}".format(pitch_dct[root], chord_intervals[interval_tup])\<close>: the two
  lookups are evaluated left to right.\<close>

definition name_chord ::
  "int \<Rightarrow> int list \<Rightarrow> (int \<times> string) list \<Rightarrow> (int list \<times> string) list \<Rightarrow> error + string" where
  "name_chord root interval_tup pitch_dct chord_intervals =
     (case map_of pitch_dct root of
        None \<Rightarrow> Inl (KeyError (IntKey root))
      | Some p \<Rightarrow>
          (case map_of chord_intervals interval_tup of
             None \<Rightarrow> Inl (KeyError (TupleKey interval_tup))
           | Some c \<Rightarrow> Inr (ljust2 p @ c)))"

subsection \<open>get\_possible\_chords\<close>

text \<open>\<^verbatim>\<open>all([reset_octave(root + x) in mode for x in it])\<close>: the list is built in full
  before \<^verbatim>\<open>all\<close> looks at it.\<close>

fun in_mode_flags :: "int list \<Rightarrow> int \<Rightarrow> int list \<Rightarrow> error + bool list" where
  "in_mode_flags mode root [] = Inr []"
| "in_mode_flags mode root (x # it) =
     (case reset_octave (root + x) of
        Inl e \<Rightarrow> Inl e
      | Inr y \<Rightarrow>
          (case in_mode_flags mode root it of
             Inl e \<Rightarrow> Inl e
           | Inr bs \<Rightarrow> Inr ((y \<in> set mode) # bs)))"

text \<open>The inner loop \<^verbatim>\<open>for it in chord_intervals.keys()\<close>, with \<open>possible_chords\<close> as
  accumulator.\<close>

fun chords_at ::
  "int list \<Rightarrow> int \<Rightarrow> (int \<times> string) list \<Rightarrow> (int list \<times> string) list \<Rightarrow>
   int list list \<Rightarrow> string list \<Rightarrow> error + string list" where
  "chords_at mode root pitch_dct chord_intervals [] possible_chords = Inr possible_chords"
| "chords_at mode root pitch_dct chord_intervals (it # its) possible_chords =
     (case in_mode_flags mode root it of
        Inl e \<Rightarrow> Inl e
      | Inr bs \<Rightarrow>
          if list_all (\<lambda>b. b) bs
          then (case name_chord root it pitch_dct chord_intervals of
                  Inl e \<Rightarrow> Inl e
                | Inr nm \<Rightarrow>
                    chords_at mode root pitch_dct chord_intervals its (possible_chords @ [nm]))
          else chords_at mode root pitch_dct chord_intervals its possible_chords)"

text \<open>The outer loop \<^verbatim>\<open>for root in mode\<close>, with \<open>dct\<close> as accumulator.\<close>

fun chords_loop ::
  "int list \<Rightarrow> (int \<times> string) list \<Rightarrow> (int list \<times> string) list \<Rightarrow>
   int list \<Rightarrow> (int \<times> string list) list \<Rightarrow> error + (int \<times> string list) list" where
  "chords_loop mode pitch_dct chord_intervals [] dct = Inr dct"
| "chords_loop mode pitch_dct chord_intervals (r # rs) dct =
     (case reset_octave r of
        Inl e \<Rightarrow> Inl e
      | Inr root \<Rightarrow>
          (case chords_at mode root pitch_dct chord_intervals (map fst chord_intervals) [] of
             Inl e \<Rightarrow> Inl e
           | Inr possible_chords \<Rightarrow>
               chords_loop mode pitch_dct chord_intervals rs
                 (if possible_chords \<noteq> [] then AList.update root possible_chords dct else dct)))"

definition get_possible_chords ::
  "int list \<Rightarrow> (int \<times> string) list \<Rightarrow> (int list \<times> string) list \<Rightarrow>
   error + (int \<times> string list) list" where
  "get_possible_chords mode pitch_dct chord_intervals =
     chords_loop mode pitch_dct chord_intervals mode []"

text \<open>The condition of the claim on one chord shape at one (reduced) root: every
  \<open>reset_octave (root + x)\<close> is a member of the mode list as given.\<close>

definition chord_fits :: "int list \<Rightarrow> int \<Rightarrow> int list \<Rightarrow> bool" where
  "chord_fits mode root t =
     list_all (\<lambda>x. case reset_octave (root + x) of Inl e \<Rightarrow> False | Inr y \<Rightarrow> y \<in> set mode) t"

text \<open>A pitch mapping in the sense of the data model has an entry for every index
  \<open>0, \<dots>, 11\<close>.\<close>

definition pitch_mapping :: "(int \<times> string) list \<Rightarrow> bool" where
  "pitch_mapping pitch_dct = list_all (\<lambda>i. map_of pitch_dct i \<noteq> None) [0, 1, 2, 3, 4, 5, 6, 7, 8, 9, 10, 11]"

text \<open>The labels stored under a key of the result; a key that is absent carries none.\<close>

definition labels_at :: "(int \<times> string list) list \<Rightarrow> int \<Rightarrow> string list" where
  "labels_at dct root = (case map_of dct root of None \<Rightarrow> [] | Some ls \<Rightarrow> ls)"

subsection \<open>convert\_seps\<close>

text \<open>\<^verbatim>\<open>[0, ] + [sum(lst[0:i+1]) for i in range(len(list(lst)))]\<close>\<close>

definition convert_seps :: "int list \<Rightarrow> int list" where
  "convert_seps lst = [0] @ map (\<lambda>i. sum_list (take (i + 1) lst)) [0..<length lst]"

text \<open>The contract in the words of the specification: the cumulative offsets from the
  tonic, as a running total.\<close>

fun running_total :: "int \<Rightarrow> int list \<Rightarrow> int list" where
  "running_total acc [] = []"
| "running_total acc (x # xs) = (acc + x) # running_total (acc + x) xs"

subsection \<open>proc\_config\_info\<close>

text \<open>
  The parsed configuration: the two sections of the YAML document. A chord definition maps
  a chord name to a Python expression, which the loader hands to \<^verbatim>\<open>eval\<close>; the
  expression is represented by its syntax tree. The fragment of Python expressions
  modelled consists of integer literals, binary \<open>+\<close> and list displays, and their
  values are integers and lists. Reading and parsing the file are outside the model.
\<close>

datatype py_expr = Num int | Add py_expr py_expr | ListE "py_expr list"

datatype py_val = VInt int | VList "py_val list"

record config =
  chord_definitions :: "(string \<times> py_expr) list"
  mode_definitions :: "(string \<times> int list) list"

text \<open>Python's \<open>+\<close>: integer addition, list concatenation, \<open>TypeError\<close> otherwise.\<close>

fun py_add :: "py_val \<Rightarrow> py_val \<Rightarrow> error + py_val" where
  "py_add (VInt m) (VInt n) = Inr (VInt (m + n))"
| "py_add (VList xs) (VList ys) = Inr (VList (xs @ ys))"
| "py_add (VInt m) (VList ys) = Inl TypeError"
| "py_add (VList xs) (VInt n) = Inl TypeError"

text \<open>\<^verbatim>\<open>eval\<close> on the fragment: operands and list elements are evaluated left to
  right.\<close>

fun py_eval :: "py_expr \<Rightarrow> error + py_val"
  and py_eval_list :: "py_expr list \<Rightarrow> error + py_val list" where
  "py_eval (Num n) = Inr (VInt n)"
| "py_eval (Add a b) =
     (case py_eval a of
        Inl e \<Rightarrow> Inl e
      | Inr x \<Rightarrow> (case py_eval b of Inl e \<Rightarrow> Inl e | Inr y \<Rightarrow> py_add x y))"
| "py_eval (ListE es) =
     (case py_eval_list es of Inl e \<Rightarrow> Inl e | Inr vs \<Rightarrow> Inr (VList vs))"
| "py_eval_list [] = Inr []"
| "py_eval_list (e # es) =
     (case py_eval e of
        Inl err \<Rightarrow> Inl err
      | Inr v \<Rightarrow> (case py_eval_list es of Inl err \<Rightarrow> Inl err | Inr vs \<Rightarrow> Inr (v # vs)))"

text \<open>\<^verbatim>\<open>tuple(v)\<close>: an integer is not iterable.\<close>

fun tuple_py :: "py_val \<Rightarrow> error + py_val list" where
  "tuple_py (VInt n) = Inl TypeError"
| "tuple_py (VList vs) = Inr vs"

text \<open>A tuple is usable as a dictionary key when every element is hashable; a list is
  not. The tuples that pass are tuples of integers.\<close>

fun hashable_key :: "py_val list \<Rightarrow> error + int list" where
  "hashable_key [] = Inr []"
| "hashable_key (VInt n # vs) =
     (case hashable_key vs of Inl e \<Rightarrow> Inl e | Inr ns \<Rightarrow> Inr (n # ns))"
| "hashable_key (VList xs # vs) = Inl TypeError"

text \<open>\<^verbatim>\<open>{tuple(eval(v)): k for k, v in cfg['chord_definitions'].items()}\<close>\<close>

fun intervals_of ::
  "(string \<times> py_expr) list \<Rightarrow> (int list \<times> string) list \<Rightarrow> error + (int list \<times> string) list" where
  "intervals_of [] d = Inr d"
| "intervals_of ((k, v) # rest) d =
     (case py_eval v of
        Inl e \<Rightarrow> Inl e
      | Inr val \<Rightarrow>
          (case tuple_py val of
             Inl e \<Rightarrow> Inl e
           | Inr t \<Rightarrow>
               (case hashable_key t of
                  Inl e \<Rightarrow> Inl e
                | Inr tup \<Rightarrow> intervals_of rest (AList.update tup k d))))"

text \<open>\<^verbatim>\<open>{k: convert_seps(v) for k, v in cfg['mode_definitions'].items()}\<close>\<close>

definition modes_of :: "(string \<times> int list) list \<Rightarrow> (string \<times> int list) list" where
  "modes_of defs = fold (\<lambda>(k, v) d. AList.update k (convert_seps v) d) defs []"

definition proc_config_info ::
  "config \<Rightarrow> error + ((string \<times> int list) list \<times> (int list \<times> string) list)" where
  "proc_config_info cfg =
     (case intervals_of (chord_definitions cfg) [] of
        Inl e \<Rightarrow> Inl e
      | Inr intervals \<Rightarrow> Inr (modes_of (mode_definitions cfg), intervals))"

text \<open>Literal integer-list syntax: a list display all of whose elements are integer
  literals.\<close>

fun is_num :: "py_expr \<Rightarrow> bool" where
  "is_num (Num n) = True"
| "is_num (Add a b) = False"
| "is_num (ListE es) = False"

fun literal_int_list :: "py_expr \<Rightarrow> bool" where
  "literal_int_list (ListE es) = list_all is_num es"
| "literal_int_list (Num n) = False"
| "literal_int_list (Add a b) = False"

subsection \<open>pretty\_print\_dict and chord\_finder\<close>

text \<open>Standard output is a list of lines; \<^verbatim>\<open>print\<close> appends one.
  \<^verbatim>\<open>
  for k, v in chord_dct.items():
      for x in sorted(v):
          print(' - {}'.format(x))
  \<close>\<close>

definition pretty_print_dict :: "(int \<times> string list) list \<Rightarrow> string list \<Rightarrow> string list" where
  "pretty_print_dict chord_dct out =
     out @ concat (map (\<lambda>(k, v). map (\<lambda>x. '' - '' @ x) (sort v)) chord_dct)"

text \<open>
  \<^verbatim>\<open>
  pitch, mode = args[0], args[1]
  modes, intervals = proc_config_info('chord_config.yml')
  pitch_names = generate_pitch_names(starting_pitch=pitch)
  mode_lst = modes[mode]
  pretty_print_dict(get_possible_chords(mode_lst, pitch_names, intervals))
  \<close>
  The function takes the content of the configuration file and the standard output so
  far, and returns the standard output afterwards with either the exception that ended
  the run or \<open>()\<close>.
\<close>

definition chord_finder :: "config \<Rightarrow> string list \<Rightarrow> string list \<Rightarrow> string list \<times> (error + unit)" where
  "chord_finder cfg args out =
     (if length args < 2 then (out, Inl IndexError)
      else
        let pitch = args ! 0; mode = args ! 1 in
        case proc_config_info cfg of
          Inl e \<Rightarrow> (out, Inl e)
        | Inr (modes, intervals) \<Rightarrow>
            (case generate_pitch_names pitch True of
               Inl e \<Rightarrow> (out, Inl e)
             | Inr pitch_names \<Rightarrow>
                 (case lookup_str modes mode of
                    Inl e \<Rightarrow> (out, Inl e)
                  | Inr mode_lst \<Rightarrow>
                      (case get_possible_chords mode_lst pitch_names intervals of
                         Inl e \<Rightarrow> (out, Inl e)
                       | Inr dct \<Rightarrow> (pretty_print_dict dct out, Inr ())))))"

section \<open>Properties\<close>

subsection \<open>reset\_octave\<close>

lemma reset_octave_up_eq:
  "reset_octave_up num = Inr (if num < 0 then num mod 12 else num)"
proof (induction num rule: reset_octave_up.induct)
  case (1 num)
  show ?case
  proof (cases "num < 0")
    case False
    then show ?thesis by (simp add: reset_octave_up.simps)
  next
    case True
    then have le: "\<not> num + 12 > 11" by simp
    from True le have "reset_octave_up num = reset_octave_up (num + 12)"
      by (subst reset_octave_up.simps) simp
    also have "\<dots> = Inr (if num + 12 < 0 then (num + 12) mod 12 else num + 12)"
      using "1.IH" [OF True le] .
    also have "(if num + 12 < 0 then (num + 12) mod 12 else num + 12) = num mod 12"
    proof (cases "num + 12 < 0")
      case True
      then show ?thesis by simp
    next
      case False
      with \<open>num < 0\<close> have "(num + 12) mod 12 = num + 12"
        by (intro mod_pos_pos_trivial) simp_all
      moreover have "(num + 12) mod 12 = num mod 12" by simp
      ultimately show ?thesis using False by simp
    qed
    finally show ?thesis using True by simp
  qed
qed

lemma reset_octave_down_eq:
  "0 \<le> num \<Longrightarrow> reset_octave_down num = Inr (num mod 12)"
proof (induction num rule: reset_octave_down.induct)
  case (1 num)
  show ?case
  proof (cases "num > 11")
    case False
    with "1.prems" show ?thesis by (simp add: reset_octave_down.simps)
  next
    case True
    then have ge: "\<not> num - 12 < 0" by simp
    from True ge have "reset_octave_down num = reset_octave_down (num - 12)"
      by (subst reset_octave_down.simps) simp
    also have "\<dots> = Inr ((num - 12) mod 12)"
      using "1.IH" [OF True ge] ge by simp
    also have "(num - 12) mod 12 = num mod 12"
      by (metis mod_add_self2 diff_add_cancel)
    finally show ?thesis .
  qed
qed

lemma reset_octave_eq: "reset_octave num = Inr (num mod 12)"
proof (cases "num < 0")
  case True
  then show ?thesis
    by (simp add: reset_octave_def reset_octave_up_eq reset_octave_down_eq)
next
  case False
  then show ?thesis
    by (simp add: reset_octave_def reset_octave_up_eq reset_octave_down_eq)
qed

text \<open>
  Claim C3. For every integer \<open>n\<close>, \<open>reset_octave n\<close> returns a value in the closed
  range \<open>[0, 11]\<close> that is congruent to \<open>n\<close> modulo 12; in particular
  \<open>reset_octave 13 = 1\<close>, \<open>reset_octave (-1) = 11\<close> and \<open>reset_octave 0 = 0\<close>.
\<close>

theorem reset_octave_range_congruent:
  "(\<exists>m. reset_octave n = Inr m \<and> 0 \<le> m \<and> m \<le> 11 \<and> m mod 12 = n mod 12)
   \<and> reset_octave 13 = Inr 1 \<and> reset_octave (- 1) = Inr 11 \<and> reset_octave 0 = Inr 0"
proof -
  have "0 \<le> n mod 12" "n mod 12 \<le> 11" by simp_all
  then show ?thesis by (simp add: reset_octave_eq)
qed

text \<open>The number of passes through the loop body is \<open>\<bar>n div 12\<bar>\<close>.\<close>

lemma octave_step_funpow:
  "nat \<bar>n div 12\<bar> = k \<Longrightarrow> (octave_step ^^ k) n = n mod 12"
proof (induction k arbitrary: n)
  case 0
  then have "n div 12 = 0" by simp
  moreover have "n = 12 * (n div 12) + n mod 12" by simp
  ultimately have "n mod 12 = n" by simp
  then show ?case by simp
next
  case (Suc k)
  show ?case
  proof (cases "n < 0")
    case True
    then have neg: "n div 12 < 0" by simp
    have d: "(n + 12) div 12 = n div 12 + 1" by simp
    from Suc.prems neg have "nat \<bar>(n + 12) div 12\<bar> = k" unfolding d by linarith
    then have "(octave_step ^^ k) (n + 12) = (n + 12) mod 12" by (rule Suc.IH)
    moreover have "octave_step n = n + 12" using True by (simp add: octave_step_def)
    ultimately show ?thesis by (simp add: funpow_swap1)
  next
    case False
    then have "0 \<le> n div 12" by simp
    with Suc.prems have pos: "n div 12 > 0" by linarith
    have big: "n > 11"
    proof (rule ccontr)
      assume "\<not> n > 11"
      with False have "n div 12 = 0" by simp
      with pos show False by simp
    qed
    have d: "(n - 12) div 12 = n div 12 - 1" by simp
    from Suc.prems pos have "nat \<bar>(n - 12) div 12\<bar> = k" unfolding d by linarith
    then have "(octave_step ^^ k) (n - 12) = (n - 12) mod 12" by (rule Suc.IH)
    moreover have "octave_step n = n - 12" using big by (simp add: octave_step_def)
    moreover have "(n - 12) mod 12 = n mod 12" by simp
    ultimately show ?thesis by (simp add: funpow_swap1)
  qed
qed

text \<open>
  Claim C9. \<open>reset_octave\<close> terminates for every integer input: it returns a value
  (it never raises), that value is reached from \<open>n\<close> by finitely many passes \<open>k\<close> through
  the loop body and lies in \<open>[0, 11]\<close>, and each pass taken outside \<open>[0, 11]\<close> strictly
  decreases the distance to that range, which is zero exactly inside it.
\<close>

theorem reset_octave_terminates:
  "(\<exists>m k. reset_octave n = Inr m \<and> (octave_step ^^ k) n = m \<and> 0 \<le> m \<and> m \<le> 11)
   \<and> (n < 0 \<or> n > 11 \<longrightarrow> octave_dist (octave_step n) < octave_dist n)
   \<and> (octave_dist n = 0 \<longleftrightarrow> 0 \<le> n \<and> n \<le> 11)"
proof (intro conjI)
  have "(octave_step ^^ nat \<bar>n div 12\<bar>) n = n mod 12" by (rule octave_step_funpow) simp
  moreover have "0 \<le> n mod 12" "n mod 12 \<le> 11" by simp_all
  ultimately show "\<exists>m k. reset_octave n = Inr m \<and> (octave_step ^^ k) n = m \<and> 0 \<le> m \<and> m \<le> 11"
    unfolding reset_octave_eq by blast
  show "n < 0 \<or> n > 11 \<longrightarrow> octave_dist (octave_step n) < octave_dist n"
    by (simp add: octave_dist_def octave_step_def)
  show "octave_dist n = 0 \<longleftrightarrow> 0 \<le> n \<and> n \<le> 11"
    by (simp add: octave_dist_def)
qed

theorem reset_octave_terminates_witness:
  "((- 25 :: int) < 0 \<or> (- 25 :: int) > 11) \<and> octave_dist (octave_step (- 25)) < octave_dist (- 25)
   \<and> reset_octave (- 25) = Inr 11"
  using reset_octave_terminates [of "- 25"] by (simp add: reset_octave_eq)

subsection \<open>convert\_seps\<close>

lemma running_total_eq:
  "running_total acc xs = map (\<lambda>i. acc + sum_list (take (i + 1) xs)) [0..<length xs]"
proof (induction xs arbitrary: acc)
  case Nil
  show ?case by simp
next
  case (Cons x xs)
  have "[0..<length (x # xs)] = 0 # map Suc [0..<length xs]"
    by (simp add: upt_conv_Cons map_Suc_upt del: upt_Suc)
  then have "map (\<lambda>i. acc + sum_list (take (i + 1) (x # xs))) [0..<length (x # xs)]
      = (acc + x) # map (\<lambda>i. (acc + x) + sum_list (take (i + 1) xs)) [0..<length xs]"
    by (simp add: add.assoc del: upt_Suc)
  then show ?case by (simp add: Cons.IH del: upt_Suc)
qed

text \<open>
  Claim C5. For every list of integer separations, \<open>convert_seps\<close> returns a list one
  longer than its input, whose first element is 0 and whose element at position \<open>i + 1\<close>
  is the sum of the first \<open>i + 1\<close> separations: the running totals of the separations,
  prepended with 0.
\<close>

theorem convert_seps_prefix_sums:
  "length (convert_seps lst) = length lst + 1
   \<and> convert_seps lst ! 0 = 0
   \<and> (\<forall>i<length lst. convert_seps lst ! (i + 1) = sum_list (take (i + 1) lst))
   \<and> convert_seps lst = 0 # running_total 0 lst"
  by (simp add: convert_seps_def running_total_eq)

theorem convert_seps_prefix_sums_witness:
  "convert_seps [1, 1, 1, 1] = [0, 1, 2, 3, 4] \<and> (1::nat) < length [2, 3 :: int]
   \<and> convert_seps [2, 3] ! (1 + 1) = 5"
  using convert_seps_prefix_sums [of "[2, 3]"] by (simp add: convert_seps_def)

subsection \<open>generate\_pitch\_names\<close>

lemma octave_indices: "{0..11::int} = {0, 1, 2, 3, 4, 5, 6, 7, 8, 9, 10, 11}"
proof (rule set_eqI)
  fix x :: int
  have "(0 \<le> x \<and> x \<le> 11) = (x = 0 \<or> x = 1 \<or> x = 2 \<or> x = 3 \<or> x = 4 \<or> x = 5 \<or> x = 6
         \<or> x = 7 \<or> x = 8 \<or> x = 9 \<or> x = 10 \<or> x = 11)"
    by presburger
  then show "(x \<in> {0..11}) = (x \<in> {0, 1, 2, 3, 4, 5, 6, 7, 8, 9, 10, 11})"
    by simp
qed


lemma pitches_sharp: "pitches_of sharp_names =
  [(''C'', 0), (''C#'', 1), (''D'', 2), (''D#'', 3), (''E'', 4), (''F'', 5), (''F#'', 6),
   (''G'', 7), (''G#'', 8), (''A'', 9), (''A#'', 10), (''B'', 11)]"
  by (simp add: pitches_of_def sharp_names_def enumerate_py_def upt_conv_Cons)

lemma enumerate_sharp: "enumerate_py sharp_names =
  [(0, ''C''), (1, ''C#''), (2, ''D''), (3, ''D#''), (4, ''E''), (5, ''F''), (6, ''F#''),
   (7, ''G''), (8, ''G#''), (9, ''A''), (10, ''A#''), (11, ''B'')]"
  by (simp add: sharp_names_def enumerate_py_def upt_conv_Cons)

lemma pitches_flat: "pitches_of flat_names =
  [(''C'', 0), (''Db'', 1), (''D'', 2), (''Eb'', 3), (''E'', 4), (''F'', 5), (''Gb'', 6),
   (''G'', 7), (''Ab'', 8), (''A'', 9), (''Bb'', 10), (''B'', 11)]"
  by (simp add: pitches_of_def flat_names_def enumerate_py_def upt_conv_Cons)

lemma enumerate_flat: "enumerate_py flat_names =
  [(0, ''C''), (1, ''Db''), (2, ''D''), (3, ''Eb''), (4, ''E''), (5, ''F''), (6, ''Gb''),
   (7, ''G''), (8, ''Ab''), (9, ''A''), (10, ''Bb''), (11, ''B'')]"
  by (simp add: flat_names_def enumerate_py_def upt_conv_Cons)

lemma rotated_sharp:
  assumes "sp \<in> set sharp_names"
  shows "\<exists>m. (case lookup_str (pitches_of sharp_names) sp of
           Inl e \<Rightarrow> Inl e
         | Inr p \<Rightarrow>
             (case lookup_str (pitches_of sharp_names) ''C'' of
                Inl e \<Rightarrow> Inl e
              | Inr c \<Rightarrow> rotate_names (p - c) (enumerate_py sharp_names) [])) = Inr m \<and> twelve_names sp m"
proof -
  from assms consider "sp = ''C''" | "sp = ''C#''" | "sp = ''D''" | "sp = ''D#''" | "sp = ''E''"
    | "sp = ''F''" | "sp = ''F#''" | "sp = ''G''" | "sp = ''G#''" | "sp = ''A''" | "sp = ''A#''"
    | "sp = ''B''"
    by (auto simp: sharp_names_def)
  then show ?thesis
    by (cases;
        simp add: pitches_sharp enumerate_sharp lookup_str_def reset_octave_eq twelve_names_def
          octave_indices;
        blast?)
qed

lemma rotated_flat:
  assumes "sp \<in> set flat_names"
  shows "\<exists>m. (case lookup_str (pitches_of flat_names) sp of
           Inl e \<Rightarrow> Inl e
         | Inr p \<Rightarrow>
             (case lookup_str (pitches_of flat_names) ''C'' of
                Inl e \<Rightarrow> Inl e
              | Inr c \<Rightarrow> rotate_names (p - c) (enumerate_py flat_names) [])) = Inr m \<and> twelve_names sp m"
proof -
  from assms consider "sp = ''C''" | "sp = ''Db''" | "sp = ''D''" | "sp = ''Eb''" | "sp = ''E''"
    | "sp = ''F''" | "sp = ''Gb''" | "sp = ''G''" | "sp = ''Ab''" | "sp = ''A''" | "sp = ''Bb''"
    | "sp = ''B''"
    by (auto simp: flat_names_def)
  then show ?thesis
    by (cases;
        simp add: pitches_flat enumerate_flat lookup_str_def reset_octave_eq twelve_names_def
          octave_indices;
        blast?)
qed

text \<open>
  Claim C4. For every starting pitch that is present in the 12-name list of the resolved
  spelling, and either spelling preference, \<open>generate_pitch_names\<close> returns a mapping
  with exactly 12 entries whose keys are the indices 0 to 11, whose names are pairwise
  distinct, and in which index 0 carries the starting pitch.
\<close>

theorem generate_pitch_names_twelve:
  assumes "starting_pitch \<in> set (pitch_names_of starting_pitch sharped)"
  shows "\<exists>m. generate_pitch_names starting_pitch sharped = Inr m
           \<and> length m = 12 \<and> fst ` set m = {0..11} \<and> distinct (map fst m)
           \<and> distinct (map snd m) \<and> map_of m 0 = Some starting_pitch"
proof (cases "resolve_sharped starting_pitch sharped")
  case True
  then have names: "pitch_names_of starting_pitch sharped = sharp_names"
    by (simp add: pitch_names_of_def)
  with assms have "starting_pitch \<in> set sharp_names" by simp
  from rotated_sharp [OF this] show ?thesis
    unfolding generate_pitch_names_def names Let_def twelve_names_def .
next
  case False
  then have names: "pitch_names_of starting_pitch sharped = flat_names"
    by (simp add: pitch_names_of_def)
  with assms have "starting_pitch \<in> set flat_names" by simp
  from rotated_flat [OF this] show ?thesis
    unfolding generate_pitch_names_def names Let_def twelve_names_def .
qed

theorem generate_pitch_names_twelve_witness:
  "''Eb'' \<in> set (pitch_names_of ''Eb'' True)
   \<and> (\<exists>m. generate_pitch_names ''Eb'' True = Inr m \<and> length m = 12 \<and> map_of m 0 = Some ''Eb'')"
proof -
  have valid: "''Eb'' \<in> set (pitch_names_of ''Eb'' True)"
    by (simp add: pitch_names_of_def resolve_sharped_def flat_names_def)
  from generate_pitch_names_twelve [OF valid] valid show ?thesis by blast
qed

lemma rotate_names_total: "\<exists>m. rotate_names diff xs d = Inr m"
proof (induction xs arbitrary: d)
  case Nil
  show ?case by simp
next
  case (Cons x xs)
  obtain i k where "x = (i, k)" by (cases x)
  with Cons show ?case by (simp add: reset_octave_eq)
qed

lemma lookup_pitch:
  "lookup_str (pitches_of (pitch_names_of pitch sharped)) pitch =
     (if pitch \<in> set (pitch_names_of pitch sharped)
      then Inr (the (map_of (pitches_of (pitch_names_of pitch sharped)) pitch))
      else Inl (KeyError (StrKey pitch)))"
proof -
  have keys: "fst ` set (pitches_of (pitch_names_of pitch sharped)) = set (pitch_names_of pitch sharped)"
  proof (cases "resolve_sharped pitch sharped")
    case True
    have "fst ` set (pitches_of sharp_names) = set sharp_names"
      unfolding pitches_sharp by (simp add: sharp_names_def)
    with True show ?thesis by (simp add: pitch_names_of_def)
  next
    case False
    have "fst ` set (pitches_of flat_names) = set flat_names"
      unfolding pitches_flat by (simp add: flat_names_def)
    with False show ?thesis by (simp add: pitch_names_of_def)
  qed
  show ?thesis
  proof (cases "map_of (pitches_of (pitch_names_of pitch sharped)) pitch")
    case None
    then have "pitch \<notin> fst ` set (pitches_of (pitch_names_of pitch sharped))"
      by (simp add: map_of_eq_None_iff)
    with None keys show ?thesis by (simp add: lookup_str_def)
  next
    case (Some i)
    then have "pitch \<in> fst ` set (pitches_of (pitch_names_of pitch sharped))"
      by (metis map_of_eq_None_iff option.distinct(1))
    with Some keys show ?thesis by (simp add: lookup_str_def)
  qed
qed

lemma lookup_C: "\<exists>c. lookup_str (pitches_of (pitch_names_of pitch sharped)) ''C'' = Inr c"
  by (simp add: pitch_names_of_def pitches_sharp pitches_flat lookup_str_def)

lemma generate_pitch_names_cases:
  "(pitch \<notin> set (pitch_names_of pitch sharped) \<longrightarrow>
      generate_pitch_names pitch sharped = Inl (KeyError (StrKey pitch)))
   \<and> (pitch \<in> set (pitch_names_of pitch sharped) \<longrightarrow>
      (\<exists>m. generate_pitch_names pitch sharped = Inr m))"
proof -
  obtain c where c: "lookup_str (pitches_of (pitch_names_of pitch sharped)) ''C'' = Inr c"
    using lookup_C by blast
  show ?thesis
    unfolding generate_pitch_names_def Let_def lookup_pitch c
    using rotate_names_total by simp
qed

lemma flat_rotation_names:
  assumes "sp \<in> set flat_names"
  shows "\<exists>m. (case lookup_str (pitches_of flat_names) sp of
           Inl e \<Rightarrow> Inl e
         | Inr p \<Rightarrow>
             (case lookup_str (pitches_of flat_names) ''C'' of
                Inl e \<Rightarrow> Inl e
              | Inr c \<Rightarrow> rotate_names (p - c) (enumerate_py flat_names) [])) = Inr m
          \<and> map snd m = flat_names \<and> map_of m 0 = Some sp"
proof -
  from assms consider "sp = ''C''" | "sp = ''Db''" | "sp = ''D''" | "sp = ''Eb''" | "sp = ''E''"
    | "sp = ''F''" | "sp = ''Gb''" | "sp = ''G''" | "sp = ''Ab''" | "sp = ''A''" | "sp = ''Bb''"
    | "sp = ''B''"
    by (auto simp: flat_names_def)
  then show ?thesis
    by (cases;
        simp add: pitches_flat enumerate_flat lookup_str_def reset_octave_eq;
        simp add: flat_names_def)
qed

text \<open>
  Claim C7. If the starting pitch name contains the flat marker \<open>b\<close>, then
  \<open>generate_pitch_names\<close> uses the flat spelling whatever the requested preference:
  the resolved name list is the flat list for \<open>sharped = True\<close> and for
  \<open>sharped = False\<close>, the two results are equal, a name of the flat list yields a
  mapping whose names are exactly the flat list with the starting pitch at index 0, and
  any other name yields the \<open>KeyError\<close> of the lookup in the flat list. In particular
  \<open>generate_pitch_names ''D'' False\<close> maps index 1 to \<open>Eb\<close>.
\<close>

theorem flat_root_forces_flat_spelling:
  "(CHR ''b'' \<in> set starting_pitch \<longrightarrow>
      pitch_names_of starting_pitch True = flat_names
      \<and> pitch_names_of starting_pitch False = flat_names
      \<and> generate_pitch_names starting_pitch True = generate_pitch_names starting_pitch False
      \<and> (starting_pitch \<in> set flat_names \<longrightarrow>
            (\<exists>m. generate_pitch_names starting_pitch True = Inr m
                 \<and> map snd m = flat_names \<and> map_of m 0 = Some starting_pitch))
      \<and> (starting_pitch \<notin> set flat_names \<longrightarrow>
            generate_pitch_names starting_pitch True = Inl (KeyError (StrKey starting_pitch))))
   \<and> (\<exists>m. generate_pitch_names ''D'' False = Inr m \<and> map_of m 1 = Some ''Eb'')"
proof (intro conjI impI)
  assume b: "CHR ''b'' \<in> set starting_pitch"
  then show t: "pitch_names_of starting_pitch True = flat_names"
    by (simp add: pitch_names_of_def resolve_sharped_def)
  from b show f: "pitch_names_of starting_pitch False = flat_names"
    by (simp add: pitch_names_of_def resolve_sharped_def)
  from t f show "generate_pitch_names starting_pitch True = generate_pitch_names starting_pitch False"
    by (simp add: generate_pitch_names_def)
  {
    assume "starting_pitch \<in> set flat_names"
    from flat_rotation_names [OF this]
    show "\<exists>m. generate_pitch_names starting_pitch True = Inr m
            \<and> map snd m = flat_names \<and> map_of m 0 = Some starting_pitch"
      unfolding generate_pitch_names_def t Let_def .
  }
  {
    assume "starting_pitch \<notin> set flat_names"
    with generate_pitch_names_cases [of starting_pitch True] t
    show "generate_pitch_names starting_pitch True = Inl (KeyError (StrKey starting_pitch))"
      by simp
  }
next
  have "generate_pitch_names ''D'' False =
    Inr [(10, ''C''), (11, ''Db''), (0, ''D''), (1, ''Eb''), (2, ''E''), (3, ''F''), (4, ''Gb''),
         (5, ''G''), (6, ''Ab''), (7, ''A''), (8, ''Bb''), (9, ''B'')]"
    by (simp add: generate_pitch_names_def pitch_names_of_def resolve_sharped_def pitches_flat
        enumerate_flat lookup_str_def reset_octave_eq)
  then show "\<exists>m. generate_pitch_names ''D'' False = Inr m \<and> map_of m 1 = Some ''Eb''"
    by simp
qed

theorem flat_root_forces_flat_spelling_witness:
  "CHR ''b'' \<in> set ''Bb'' \<and> ''Bb'' \<in> set flat_names
   \<and> pitch_names_of ''Bb'' True = flat_names
   \<and> generate_pitch_names ''Bb'' True = generate_pitch_names ''Bb'' False
   \<and> (\<exists>m. generate_pitch_names ''Bb'' True = Inr m
          \<and> map snd m = flat_names \<and> map_of m 0 = Some ''Bb'')"
proof -
  have h1: "CHR ''b'' \<in> set ''Bb''" by simp
  have h2: "''Bb'' \<in> set flat_names" by (simp add: flat_names_def)
  from flat_root_forces_flat_spelling [of "''Bb''"] h1 h2 show ?thesis by blast
qed

subsection \<open>get\_possible\_chords\<close>

lemma in_mode_flags_eq:
  "in_mode_flags mode root it = Inr (map (\<lambda>x. (root + x) mod 12 \<in> set mode) it)"
  by (induction it) (simp_all add: reset_octave_eq)

lemma chord_fits_iff:
  "chord_fits mode root t \<longleftrightarrow> (\<forall>x\<in>set t. (root + x) mod 12 \<in> set mode)"
  by (simp add: chord_fits_def reset_octave_eq list_all_iff)

lemma flags_all_iff:
  "list_all (\<lambda>b. b) (map (\<lambda>x. (root + x) mod 12 \<in> set mode) it) = chord_fits mode root it"
  by (simp add: chord_fits_iff list_all_iff)

lemma chords_at_result:
  "chords_at mode root pitch_dct chord_intervals its acc = Inr pcs \<Longrightarrow>
   map Inr pcs = map Inr acc @
     map (\<lambda>t. name_chord root t pitch_dct chord_intervals) (filter (chord_fits mode root) its)"
proof (induction its arbitrary: acc)
  case Nil
  then show ?case by simp
next
  case (Cons it its)
  show ?case
  proof (cases "chord_fits mode root it")
    case False
    with Cons.prems have "chords_at mode root pitch_dct chord_intervals its acc = Inr pcs"
      by (simp add: in_mode_flags_eq flags_all_iff)
    from Cons.IH [OF this] False show ?thesis by simp
  next
    case True
    with Cons.prems obtain nm where
      nm: "name_chord root it pitch_dct chord_intervals = Inr nm" and
      rest: "chords_at mode root pitch_dct chord_intervals its (acc @ [nm]) = Inr pcs"
      by (auto simp: in_mode_flags_eq flags_all_iff split: sum.splits)
    from Cons.IH [OF rest] nm True show ?thesis by simp
  qed
qed

lemma chords_at_total:
  assumes "map_of pitch_dct root = Some p" and "set its \<subseteq> fst ` set chord_intervals"
  shows "\<exists>pcs. chords_at mode root pitch_dct chord_intervals its acc = Inr pcs"
  using assms(2)
proof (induction its arbitrary: acc)
  case Nil
  show ?case by simp
next
  case (Cons it its)
  then have "it \<in> fst ` set chord_intervals" by simp
  then obtain c where "map_of chord_intervals it = Some c"
    by (metis domD dom_map_of_conv_image_fst)
  with assms(1) have "name_chord root it pitch_dct chord_intervals = Inr (ljust2 p @ c)"
    by (simp add: name_chord_def)
  moreover from Cons have "\<exists>pcs. chords_at mode root pitch_dct chord_intervals its acc' = Inr pcs" for acc'
    by simp
  ultimately show ?case by (simp add: in_mode_flags_eq)
qed


lemma pitch_mapping_lookup:
  assumes "pitch_mapping pitch_dct" and "0 \<le> k" and "k \<le> 11"
  shows "\<exists>p. map_of pitch_dct k = Some p"
proof -
  from assms(2,3) have "k \<in> {0, 1, 2, 3, 4, 5, 6, 7, 8, 9, 10, 11}"
    unfolding octave_indices [symmetric] by simp
  with assms(1) show ?thesis
    unfolding pitch_mapping_def list_all_iff by auto
qed

lemma chords_loop_total:
  assumes "pitch_mapping pitch_dct"
  shows "\<exists>dct'. chords_loop mode pitch_dct chord_intervals rs dct = Inr dct'"
proof (induction rs arbitrary: dct)
  case Nil
  show ?case by simp
next
  case (Cons r rs)
  have "0 \<le> r mod 12" "r mod 12 \<le> 11" by simp_all
  from pitch_mapping_lookup [OF assms this] obtain p where "map_of pitch_dct (r mod 12) = Some p" ..
  moreover have "set (map fst chord_intervals) \<subseteq> fst ` set chord_intervals" by simp
  ultimately obtain pcs where
    "chords_at mode (r mod 12) pitch_dct chord_intervals (map fst chord_intervals) [] = Inr pcs"
    using chords_at_total by blast
  with Cons show ?case by (simp add: reset_octave_eq)
qed

lemma chords_loop_result:
  assumes "chords_loop mode pitch_dct chord_intervals rs dct = Inr dct'"
  shows "(k \<notin> (\<lambda>r. r mod 12) ` set rs \<or> filter (chord_fits mode k) (map fst chord_intervals) = []
            \<longrightarrow> map_of dct' k = map_of dct k)
       \<and> (k \<in> (\<lambda>r. r mod 12) ` set rs \<and> filter (chord_fits mode k) (map fst chord_intervals) \<noteq> []
            \<longrightarrow> (\<exists>ls. map_of dct' k = Some ls \<and>
                   map Inr ls = map (\<lambda>t. name_chord k t pitch_dct chord_intervals)
                                  (filter (chord_fits mode k) (map fst chord_intervals))))"
  using assms
proof (induction rs arbitrary: dct)
  case Nil
  then show ?case by simp
next
  case (Cons r rs)
  let ?F = "\<lambda>k. filter (chord_fits mode k) (map fst chord_intervals)"
  let ?root = "r mod 12"
  from Cons.prems obtain pcs where
    pcs: "chords_at mode ?root pitch_dct chord_intervals (map fst chord_intervals) [] = Inr pcs" and
    rest: "chords_loop mode pitch_dct chord_intervals rs
             (if pcs \<noteq> [] then AList.update ?root pcs dct else dct) = Inr dct'"
    by (auto simp: reset_octave_eq split: sum.splits)
  let ?dct1 = "if pcs \<noteq> [] then AList.update ?root pcs dct else dct"
  from chords_at_result [OF pcs]
  have lab: "map Inr pcs = map (\<lambda>t. name_chord ?root t pitch_dct chord_intervals) (?F ?root)"
    by simp
  then have empty: "pcs = [] \<longleftrightarrow> ?F ?root = []"
    by (metis map_is_Nil_conv)
  note IH = Cons.IH [OF rest]
  have step: "map_of ?dct1 k = (if k = ?root \<and> ?F k \<noteq> [] then Some pcs else map_of dct k)"
    using empty by (auto simp: update_conv')
  show ?case
  proof (intro conjI impI)
    assume "k \<notin> (\<lambda>r. r mod 12) ` set (r # rs) \<or> ?F k = []"
    then have "map_of dct' k = map_of ?dct1 k" using IH by auto
    also have "\<dots> = map_of dct k"
      using \<open>k \<notin> (\<lambda>r. r mod 12) ` set (r # rs) \<or> ?F k = []\<close> step by auto
    finally show "map_of dct' k = map_of dct k" .
  next
    assume a: "k \<in> (\<lambda>r. r mod 12) ` set (r # rs) \<and> ?F k \<noteq> []"
    show "\<exists>ls. map_of dct' k = Some ls \<and>
            map Inr ls = map (\<lambda>t. name_chord k t pitch_dct chord_intervals) (?F k)"
    proof (cases "k \<in> (\<lambda>r. r mod 12) ` set rs")
      case True
      with a IH show ?thesis by blast
    next
      case False
      with a have k: "k = ?root" by auto
      from False IH have "map_of dct' k = map_of ?dct1 k" by blast
      also have "\<dots> = Some pcs" using step a k by simp
      finally show ?thesis using lab k by blast
    qed
  qed
qed


lemma set_update_subset: "set (AList.update k v al) \<subseteq> insert (k, v) (set al)"
  by (induction al) auto

lemma chords_loop_nonempty:
  assumes "chords_loop mode pitch_dct chord_intervals rs dct = Inr dct'"
    and "\<forall>(k, v)\<in>set dct. v \<noteq> []"
  shows "\<forall>(k, v)\<in>set dct'. v \<noteq> []"
  using assms
proof (induction rs arbitrary: dct)
  case Nil
  then show ?case by simp
next
  case (Cons r rs)
  from Cons.prems(1) obtain pcs where
    rest: "chords_loop mode pitch_dct chord_intervals rs
             (if pcs \<noteq> [] then AList.update (r mod 12) pcs dct else dct) = Inr dct'"
    by (auto simp: reset_octave_eq split: sum.splits)
  have "\<forall>(k, v)\<in>set (if pcs \<noteq> [] then AList.update (r mod 12) pcs dct else dct). v \<noteq> []"
    using Cons.prems(2) set_update_subset [of "r mod 12" pcs dct] by auto
  from Cons.IH [OF rest this] show ?case .
qed

lemma sharp_pitch_mapping: "pitch_mapping (enumerate_py sharp_names)"
  by (simp add: pitch_mapping_def enumerate_sharp)

lemma example_search:
  "get_possible_chords [0, 4, 19] (enumerate_py sharp_names) [([4], ''maj3''), ([4, 7], ''M'')]
     = Inr [(0, [''C maj3''])]"
  by (simp add: get_possible_chords_def reset_octave_eq in_mode_flags_eq name_chord_def
      enumerate_sharp ljust2_def)

text \<open>
  Claim C1. For every mode list, pitch mapping and chord table, and every offset \<open>r\<close> of
  the mode: \<open>get_possible_chords\<close> returns a result in which the labels stored under
  the key \<open>reset_octave r\<close> are, in table order, exactly the labels of the chord shapes
  \<open>t\<close> of the table for which every \<open>reset_octave (reset_octave r + x)\<close>, \<open>x\<close> in \<open>t\<close>,
  is a member of the mode list as given (unreduced); a shape is recorded there if and
  only if it satisfies this condition, and the key is present if and only if some shape
  does.
\<close>

theorem get_possible_chords_records_fitting:
  assumes "pitch_mapping pitch_dct" and "r \<in> set mode"
  shows "\<exists>root dct. reset_octave r = Inr root
           \<and> get_possible_chords mode pitch_dct chord_intervals = Inr dct
           \<and> map Inr (labels_at dct root) =
               map (\<lambda>t. name_chord root t pitch_dct chord_intervals)
                 (filter (chord_fits mode root) (map fst chord_intervals))
           \<and> (map_of dct root \<noteq> None \<longleftrightarrow>
                 (\<exists>t\<in>set (map fst chord_intervals). chord_fits mode root t))"
proof -
  let ?root = "r mod 12"
  let ?F = "filter (chord_fits mode ?root) (map fst chord_intervals)"
  from chords_loop_total [OF assms(1)] obtain dct where
    dct: "chords_loop mode pitch_dct chord_intervals mode [] = Inr dct" by blast
  note res = chords_loop_result [OF dct, of ?root]
  have mem: "?root \<in> (\<lambda>r. r mod 12) ` set mode" using assms(2) by blast
  have labels: "map Inr (labels_at dct ?root) =
      map (\<lambda>t. name_chord ?root t pitch_dct chord_intervals) ?F"
  proof (cases "?F = []")
    case True
    with res have "map_of dct ?root = None" by simp
    with True show ?thesis by (simp add: labels_at_def)
  next
    case False
    with res mem obtain ls where "map_of dct ?root = Some ls"
      "map Inr ls = map (\<lambda>t. name_chord ?root t pitch_dct chord_intervals) ?F" by blast
    then show ?thesis by (simp add: labels_at_def)
  qed
  have present: "map_of dct ?root \<noteq> None \<longleftrightarrow>
      (\<exists>t\<in>set (map fst chord_intervals). chord_fits mode ?root t)"
  proof (cases "?F = []")
    case True
    with res have "map_of dct ?root = None" by simp
    moreover from True have "\<not> (\<exists>t\<in>set (map fst chord_intervals). chord_fits mode ?root t)"
      by (simp add: filter_empty_conv)
    ultimately show ?thesis by simp
  next
    case False
    with res mem have "map_of dct ?root \<noteq> None" by auto
    moreover from False have "\<exists>t\<in>set (map fst chord_intervals). chord_fits mode ?root t"
      by (simp add: filter_empty_conv)
    ultimately show ?thesis by simp
  qed
  from dct labels present show ?thesis
    unfolding get_possible_chords_def reset_octave_eq by blast
qed

theorem get_possible_chords_records_fitting_witness:
  "pitch_mapping (enumerate_py sharp_names) \<and> (0::int) \<in> set [0, 4, 19]
   \<and> (\<exists>dct. get_possible_chords [0, 4, 19] (enumerate_py sharp_names)
               [([4], ''maj3''), ([4, 7], ''M'')] = Inr dct
          \<and> labels_at dct 0 = [''C maj3''])"
proof -
  have h: "(0::int) \<in> set [0, 4, 19]" by simp
  from get_possible_chords_records_fitting [OF sharp_pitch_mapping h,
      of "[([4], ''maj3''), ([4, 7], ''M'')]"]
  obtain dct where
    dct: "get_possible_chords [0, 4, 19] (enumerate_py sharp_names)
            [([4], ''maj3''), ([4, 7], ''M'')] = Inr dct" and
    lab: "map Inr (labels_at dct 0) =
       map (\<lambda>t. name_chord 0 t (enumerate_py sharp_names) [([4], ''maj3''), ([4, 7], ''M'')])
         (filter (chord_fits [0, 4, 19] 0) (map fst [([4], ''maj3''), ([4, 7], ''M'')]))"
    by (auto simp: reset_octave_eq)
  from lab have "map Inr (labels_at dct 0) = [Inr ''C maj3'' :: error + string]"
    by (simp add: chord_fits_iff name_chord_def enumerate_sharp ljust2_def)
  then have "labels_at dct 0 = [''C maj3'']"
    by (metis (no_types) list.simps(8,9) inj_Inr inj_map_eq_map)
  with sharp_pitch_mapping h dct show ?thesis by blast
qed

text \<open>
  Claim C6. Every key present in the result of \<open>get_possible_chords\<close> maps to a
  non-empty list of labels, and a root at which no chord shape matches is not a key of
  the result.
\<close>

theorem get_possible_chords_no_empty_entry:
  assumes "get_possible_chords mode pitch_dct chord_intervals = Inr dct"
  shows "(\<forall>(k, v)\<in>set dct. v \<noteq> [])
       \<and> (\<forall>k. \<not> (\<exists>t\<in>set (map fst chord_intervals). chord_fits mode k t) \<longrightarrow> map_of dct k = None)"
proof
  from assms have loop: "chords_loop mode pitch_dct chord_intervals mode [] = Inr dct"
    by (simp add: get_possible_chords_def)
  from chords_loop_nonempty [OF loop] show "\<forall>(k, v)\<in>set dct. v \<noteq> []" by simp
  show "\<forall>k. \<not> (\<exists>t\<in>set (map fst chord_intervals). chord_fits mode k t) \<longrightarrow> map_of dct k = None"
  proof (intro allI impI)
    fix k
    assume "\<not> (\<exists>t\<in>set (map fst chord_intervals). chord_fits mode k t)"
    then have "filter (chord_fits mode k) (map fst chord_intervals) = []"
      by (simp add: filter_empty_conv)
    with chords_loop_result [OF loop, of k] show "map_of dct k = None" by simp
  qed
qed

theorem get_possible_chords_no_empty_entry_witness:
  "get_possible_chords [0, 4, 19] (enumerate_py sharp_names) [([4], ''maj3''), ([4, 7], ''M'')]
     = Inr [(0, [''C maj3''])]
   \<and> list_all (\<lambda>(k, v). v \<noteq> []) [(0::int, [''C maj3''])]
   \<and> map_of [(0::int, [''C maj3''])] 4 = None"
proof -
  note r = get_possible_chords_no_empty_entry [OF example_search]
  from r have "\<forall>(k, v)\<in>set [(0::int, [''C maj3''])]. v \<noteq> []" by blast
  then have "list_all (\<lambda>(k, v). v \<noteq> []) [(0::int, [''C maj3''])]"
    unfolding list_all_iff .
  moreover have "\<not> (\<exists>t\<in>set (map fst [([4], ''maj3''), ([4, 7], ''M'')]). chord_fits [0, 4, 19] 4 t)"
    by (simp add: chord_fits_iff)
  with r have "map_of [(0::int, [''C maj3''])] 4 = None" by blast
  ultimately show ?thesis using example_search by blast
qed

text \<open>
  Claim C10. If the chord table has the empty offset tuple as a key, then for every mode
  list and pitch mapping, every offset of the mode, reduced modulo 12, is a key of the
  result of \<open>get_possible_chords\<close>, and the list stored there contains the label of the
  empty-tuple chord at that root.
\<close>

theorem empty_chord_at_every_root:
  assumes "pitch_mapping pitch_dct" and "[] \<in> set (map fst chord_intervals)" and "r \<in> set mode"
  shows "\<exists>root dct ls l. reset_octave r = Inr root
           \<and> get_possible_chords mode pitch_dct chord_intervals = Inr dct
           \<and> map_of dct root = Some ls
           \<and> name_chord root [] pitch_dct chord_intervals = Inr l \<and> l \<in> set ls"
proof -
  let ?root = "r mod 12"
  let ?F = "filter (chord_fits mode ?root) (map fst chord_intervals)"
  from chords_loop_total [OF assms(1)] obtain dct where
    dct: "chords_loop mode pitch_dct chord_intervals mode [] = Inr dct" by blast
  have fits: "[] \<in> set ?F" using assms(2) by (simp add: chord_fits_def)
  then have "?F \<noteq> []" by (metis empty_iff empty_set)
  moreover have "?root \<in> (\<lambda>r. r mod 12) ` set mode" using assms(3) by blast
  ultimately obtain ls where ls: "map_of dct ?root = Some ls"
    "map Inr ls = map (\<lambda>t. name_chord ?root t pitch_dct chord_intervals) ?F"
    using chords_loop_result [OF dct, of ?root] by blast
  from fits have "name_chord ?root [] pitch_dct chord_intervals \<in>
      set (map (\<lambda>t. name_chord ?root t pitch_dct chord_intervals) ?F)"
    by (simp only: set_map) (rule imageI)
  with ls(2) have "name_chord ?root [] pitch_dct chord_intervals \<in> Inr ` set ls"
    by (metis set_map)
  then obtain l where "name_chord ?root [] pitch_dct chord_intervals = Inr l" "l \<in> set ls"
    by auto
  with dct ls(1) show ?thesis
    unfolding get_possible_chords_def reset_octave_eq by blast
qed


theorem empty_chord_at_every_root_witness:
  "pitch_mapping (enumerate_py sharp_names) \<and> [] \<in> set (map fst [([] :: int list, ''note'')])
   \<and> (14::int) \<in> set [0, 14]
   \<and> (\<exists>dct ls. get_possible_chords [0, 14] (enumerate_py sharp_names) [([], ''note'')] = Inr dct
          \<and> map_of dct 2 = Some ls \<and> ''D note'' \<in> set ls)"
proof -
  have h1: "[] \<in> set (map fst [([] :: int list, ''note'')])" by simp
  have h2: "(14::int) \<in> set [0, 14]" by simp
  from empty_chord_at_every_root [OF sharp_pitch_mapping h1 h2]
  obtain root dct ls l where
    "reset_octave 14 = Inr root"
    "get_possible_chords [0, 14] (enumerate_py sharp_names) [([], ''note'')] = Inr dct"
    "map_of dct root = Some ls"
    "name_chord root [] (enumerate_py sharp_names) [([], ''note'')] = Inr l" "l \<in> set ls"
    by blast
  moreover from this(1) have "root = 2" by (simp add: reset_octave_eq)
  ultimately have
    "get_possible_chords [0, 14] (enumerate_py sharp_names) [([], ''note'')] = Inr dct
       \<and> map_of dct 2 = Some ls \<and> ''D note'' \<in> set ls"
    by (auto simp: name_chord_def enumerate_sharp ljust2_def)
  with sharp_pitch_mapping h1 h2 show ?thesis by blast
qed

subsection \<open>chord\_finder\<close>

lemma modes_of_keys: "fst ` set (modes_of defs) = fst ` set defs"
proof -
  have "fst ` set (fold (\<lambda>(k, v) d. AList.update k (convert_seps v) d) defs d0)
          = fst ` set defs \<union> fst ` set d0" for d0
  proof (induction defs arbitrary: d0)
    case Nil
    show ?case by simp
  next
    case (Cons x defs)
    obtain k v where x: "x = (k, v)" by (cases x)
    have "fst ` set (fold (\<lambda>(k, v) d. AList.update k (convert_seps v) d) (x # defs) d0)
        = fst ` set defs \<union> fst ` set (AList.update k (convert_seps v) d0)"
      unfolding x using Cons.IH by simp
    also have "\<dots> = fst ` set (x # defs) \<union> fst ` set d0"
      unfolding dom_update x by auto
    finally show ?case .
  qed
  then show ?thesis by (simp add: modes_of_def)
qed

lemma lookup_mode_absent:
  "mode \<notin> fst ` set defs \<Longrightarrow> lookup_str (modes_of defs) mode = Inl (KeyError (StrKey mode))"
proof -
  assume "mode \<notin> fst ` set defs"
  then have "mode \<notin> fst ` set (modes_of defs)" by (simp add: modes_of_keys)
  then have "map_of (modes_of defs) mode = None" by (simp add: map_of_eq_None_iff)
  then show ?thesis by (simp add: lookup_str_def)
qed


text \<open>
  Claim C8. Whenever the requested root pitch name is not in the 12-name list of the
  resolved spelling, or the requested mode name is not a key of the configuration's mode
  definitions, \<open>chord_finder\<close> ends with an error and standard output is unchanged; when
  the configuration itself loads, the error is the \<open>KeyError\<close> of the failing lookup: of
  the pitch name if that is invalid, otherwise of the mode name.
\<close>

theorem chord_finder_invalid_input:
  assumes "pitch \<notin> set (pitch_names_of pitch True) \<or> mode \<notin> fst ` set (mode_definitions cfg)"
  shows "(\<exists>e. chord_finder cfg (pitch # mode # rest) out = (out, Inl e))
       \<and> (\<forall>modes intervals. proc_config_info cfg = Inr (modes, intervals) \<longrightarrow>
            chord_finder cfg (pitch # mode # rest) out =
              (out, Inl (KeyError (StrKey
                 (if pitch \<notin> set (pitch_names_of pitch True) then pitch else mode)))))"
proof -
  have loaded: "chord_finder cfg (pitch # mode # rest) out =
      (out, Inl (KeyError (StrKey
         (if pitch \<notin> set (pitch_names_of pitch True) then pitch else mode))))"
    if cfg: "proc_config_info cfg = Inr (modes, intervals)" for modes intervals
  proof (cases "pitch \<in> set (pitch_names_of pitch True)")
    case False
    with generate_pitch_names_cases [of pitch True]
    have "generate_pitch_names pitch True = Inl (KeyError (StrKey pitch))" by blast
    with cfg False show ?thesis by (simp add: chord_finder_def)
  next
    case True
    with generate_pitch_names_cases [of pitch True]
    obtain m where m: "generate_pitch_names pitch True = Inr m" by blast
    from True assms have "mode \<notin> fst ` set (mode_definitions cfg)" by blast
    then have "lookup_str (modes_of (mode_definitions cfg)) mode = Inl (KeyError (StrKey mode))"
      by (rule lookup_mode_absent)
    moreover from cfg have "modes = modes_of (mode_definitions cfg)"
      by (auto simp: proc_config_info_def split: sum.splits)
    ultimately show ?thesis using cfg m True by (simp add: chord_finder_def)
  qed
  have "\<exists>e. chord_finder cfg (pitch # mode # rest) out = (out, Inl e)"
  proof (cases "proc_config_info cfg")
    case (Inl e)
    then show ?thesis by (simp add: chord_finder_def)
  next
    case (Inr res)
    obtain modes intervals where "res = (modes, intervals)" by (cases res)
    with Inr loaded show ?thesis by blast
  qed
  with loaded show ?thesis by blast
qed

theorem chord_finder_invalid_input_witness:
  "''H'' \<notin> set (pitch_names_of ''H'' True)
   \<and> chord_finder
        \<lparr>chord_definitions = [(''M'', ListE [Num 4, Num 7])],
         mode_definitions = [(''major'', [2, 2, 1, 2, 2, 2, 1])]\<rparr>
        [''H'', ''major''] [] = ([], Inl (KeyError (StrKey ''H'')))"
proof -
  let ?cfg = "\<lparr>chord_definitions = [(''M'', ListE [Num 4, Num 7])],
               mode_definitions = [(''major'', [2, 2, 1, 2, 2, 2, 1])]\<rparr>"
  have bad: "''H'' \<notin> set (pitch_names_of ''H'' True)"
    by (simp add: pitch_names_of_def resolve_sharped_def sharp_names_def)
  then have hyp: "''H'' \<notin> set (pitch_names_of ''H'' True)
      \<or> ''major'' \<notin> fst ` set (mode_definitions ?cfg)" ..
  have cfg: "proc_config_info ?cfg = Inr (modes_of (mode_definitions ?cfg), [([4, 7], ''M'')])"
    by (simp add: proc_config_info_def)
  from chord_finder_invalid_input [OF hyp, of "[]" "[]"] cfg
  have "chord_finder ?cfg [''H'', ''major''] [] =
      ([], Inl (KeyError (StrKey
         (if ''H'' \<notin> set (pitch_names_of ''H'' True) then ''H'' else ''major''))))"
    by blast
  with bad show ?thesis by simp
qed

subsection \<open>proc\_config\_info\<close>

lemma py_eval_literal: "py_eval_list (map Num ns) = Inr (map VInt ns)"
  by (induction ns) simp_all

lemma hashable_key_ints: "hashable_key (map VInt ns) = Inr ns"
  by (induction ns) simp_all

lemma intervals_of_literal:
  "intervals_of (map (\<lambda>(k, ns). (k, ListE (map Num ns))) defs) d =
     Inr (fold (\<lambda>(k, ns) d. AList.update ns k d) defs d)"
proof (induction defs arbitrary: d)
  case Nil
  show ?case by simp
next
  case (Cons x defs)
  obtain k ns where "x = (k, ns)" by (cases x)
  with Cons show ?case by (simp add: py_eval_literal hashable_key_ints)
qed

lemma literal_int_list_iff: "literal_int_list e \<longleftrightarrow> (\<exists>ns. e = ListE (map Num ns))"
proof
  assume "literal_int_list e"
  then obtain es where e: "e = ListE es" and es: "list_all is_num es"
    by (cases e) simp_all
  from es have "\<exists>ns. es = map Num ns"
  proof (induction es)
    case Nil
    then show ?case by simp
  next
    case (Cons a es)
    then obtain ns where "es = map Num ns" by auto
    moreover from Cons.prems obtain n where "a = Num n" by (cases a) simp_all
    ultimately have "a # es = map Num (n # ns)" by simp
    then show ?case by (rule exI)
  qed
  with e show "\<exists>ns. e = ListE (map Num ns)" by blast
next
  assume "\<exists>ns. e = ListE (map Num ns)"
  then show "literal_int_list e" by (auto simp: list_all_iff)
qed

text \<open>
  Claim C2 says that an offset expression which is not literal integer-list syntax is
  rejected rather than evaluated. The loader passes the expression to \<^verbatim>\<open>eval\<close>: the
  expression \<^verbatim>\<open>[1+2, 7]\<close> is not a literal list, and it is accepted with the key
  \<open>(3, 7)\<close>.
\<close>

theorem proc_config_info_accepts_non_literal:
  "\<not> literal_int_list (ListE [Add (Num 1) (Num 2), Num 7])
   \<and> proc_config_info
        \<lparr>chord_definitions = [(''m'', ListE [Add (Num 1) (Num 2), Num 7])],
         mode_definitions = []\<rparr> = Inr ([], [([3, 7], ''m'')])"
  by (simp add: proc_config_info_def modes_of_def)

text \<open>
  Claim C2, amended. The loader evaluates each offset expression and converts the value
  to a tuple: a configuration whose offset expressions are literal integer lists loads,
  each list giving the tuple of its integers as a key (a later definition of the same
  tuple overwrites the name); and any expression whose value is a list of integers is
  accepted with that tuple as key, literal or not.
\<close>

theorem proc_config_info_evaluates:
  "proc_config_info
     \<lparr>chord_definitions = map (\<lambda>(k, ns). (k, ListE (map Num ns))) defs,
      mode_definitions = md\<rparr>
     = Inr (modes_of md, fold (\<lambda>(k, ns) d. AList.update ns k d) defs [])
   \<and> (py_eval e = Inr (VList (map VInt ns)) \<longrightarrow>
        proc_config_info \<lparr>chord_definitions = [(k, e)], mode_definitions = md\<rparr>
          = Inr (modes_of md, [(ns, k)]))"
  by (simp add: proc_config_info_def intervals_of_literal hashable_key_ints)

theorem proc_config_info_evaluates_witness:
  "py_eval (Add (ListE [Num 3]) (ListE [Num 7])) = Inr (VList (map VInt [3, 7]))
   \<and> proc_config_info
        \<lparr>chord_definitions = [(''m'', Add (ListE [Num 3]) (ListE [Num 7]))],
         mode_definitions = []\<rparr> = Inr ([], [([3, 7], ''m'')])"
proof -
  have ev: "py_eval (Add (ListE [Num 3]) (ListE [Num 7])) = Inr (VList (map VInt [3, 7]))"
    by simp
  from proc_config_info_evaluates [of "[]" "[]" "Add (ListE [Num 3]) (ListE [Num 7])" "[3, 7]" "''m''"] ev
  have "proc_config_info
        \<lparr>chord_definitions = [(''m'', Add (ListE [Num 3]) (ListE [Num 7]))],
         mode_definitions = []\<rparr> = Inr (modes_of [], [([3, 7], ''m'')])"
    by blast
  with ev show ?thesis by (simp add: modes_of_def)
qed

end
